theory Spec2Isabelle
  imports Complex_Main "HOL-Library.Multiset"
begin

section \<open>VectorSequence: epoch-wise shuffled batches of a vector\<close>

text \<open>
  The development embeds \<^verbatim>\<open>keras_mixed_sequence/utils/vector_sequence.py\<close>. A numpy
  array is a list of its first-axis entries, a Python \<^verbatim>\<open>int\<close> is an \<^typ>\<open>int\<close>, an
  exception is a value on the left of a sum, and a method that can assign to
  \<^verbatim>\<open>self\<close> returns the object next to its result.
\<close>

subsection \<open>Errors\<close>

text \<open>
  \<^verbatim>\<open>ValueError\<close> carries its message. \<^verbatim>\<open>IndexError\<close> is what numpy raises when an
  index array holds an index outside the indexed axis.
\<close>

datatype error = ValueError string | IndexError

subsection \<open>Python and numpy primitives used by the class\<close>

text \<open>Decimal rendering of an integer, as \<^verbatim>\<open>str.format\<close> does for an \<^verbatim>\<open>int\<close> field.\<close>

definition digit :: "nat \<Rightarrow> char" where
  "digit d = ''0123456789'' ! d"

fun str_nat :: "nat \<Rightarrow> string" where
  "str_nat n = (if n < 10 then [digit n] else str_nat (n div 10) @ [digit (n mod 10)])"

declare str_nat.simps [simp del]

definition str_int :: "int \<Rightarrow> string" where
  "str_int i = (if i < 0 then CHR ''-'' # str_nat (nat (- i)) else str_nat (nat i))"

text \<open>
  Bounds of a slice \<^verbatim>\<open>a[start:stop]\<close> over a sequence of length \<open>len\<close>: a negative
  bound counts from the end, and every bound is clipped to \<open>[0, len]\<close>.
\<close>

definition adjust_index :: "nat \<Rightarrow> int \<Rightarrow> nat" where
  "adjust_index len i =
     (if i < 0 then (if i + int len < 0 then 0 else nat (i + int len))
      else if int len \<le> i then len else nat i)"

text \<open>The slice itself; it is empty when the adjusted stop is not above the adjusted start.\<close>

definition slice :: "'a list \<Rightarrow> int \<Rightarrow> int \<Rightarrow> 'a list" where
  "slice xs start stop =
     (let lo = adjust_index (length xs) start;
          hi = adjust_index (length xs) stop
      in take (hi - lo) (drop lo xs))"

text \<open>\<^verbatim>\<open>np.arange(n)\<close>.\<close>

definition arange :: "nat \<Rightarrow> nat list" where
  "arange n = [0..<n]"

text \<open>
  Indexing with an index array, \<^verbatim>\<open>a[indices]\<close>: the entries at the listed positions,
  in the listed order, or \<^verbatim>\<open>IndexError\<close> when a position is out of bounds.
\<close>

definition index_array :: "'a list \<Rightarrow> nat list \<Rightarrow> error + 'a list" where
  "index_array xs indices =
     (if list_all (\<lambda>i. i < length xs) indices then Inr (map (nth xs) indices)
      else Inl IndexError)"

text \<open>
  The generator is numpy's, not this repository's. It enters as a parameter
  \<open>shuffle\<close>: \<open>shuffle s a\<close> is the content of the array \<open>a\<close> after
  \<^verbatim>\<open>np.random.RandomState(seed=s).shuffle(a)\<close>, for a seed \<open>s\<close> that numpy accepts
  (numpy documents the integers from \<open>0\<close> to \<open>2\<^sup>3\<^sup>2 - 1\<close>). Being a function, it
  gives the same result for the same seed and array. What numpy promises beyond
  that is that the result is a rearrangement of the array:
\<close>

type_synonym shuffle = "int \<Rightarrow> nat list \<Rightarrow> nat list"

definition rearranges :: "shuffle \<Rightarrow> bool" where
  "rearranges shuffle = (\<forall>s a. mset (shuffle s a) = mset a)"

subsection \<open>The base class\<close>

text \<open>
  Modelled from the spec: the base class \<^verbatim>\<open>Sequence\<close> of \<^verbatim>\<open>utils/sequence.py\<close>, which
  is not among the sources. It holds \<open>samples_number\<close> (N), \<open>batch_size\<close> (B) and the
  elapsed-epoch counter, as its constructor receives them.
\<close>

record Sequence =
  samples_number :: nat
  batch_size :: int
  elapsed_epochs :: int

text \<open>
  Modelled from the spec: \<^verbatim>\<open>Sequence.steps_per_epoch\<close>, missing with the base class;
  the spec gives \<open>steps_per_epoch = ceil(N / B)\<close> for a positive batch size.
\<close>

definition steps_per_epoch :: "'z Sequence_scheme \<Rightarrow> int" where
  "steps_per_epoch self = - ((- int (samples_number self)) div batch_size self)"

text \<open>
  Modelled from the spec: \<^verbatim>\<open>Sequence.on_epoch_end\<close>, missing with the base class; the
  spec has it increment the elapsed-epoch counter once.
\<close>

definition Sequence_on_epoch_end :: "'z Sequence_scheme \<Rightarrow> 'z Sequence_scheme" where
  "Sequence_on_epoch_end self = self\<lparr>elapsed_epochs := elapsed_epochs self + 1\<rparr>"

subsection \<open>The class VectorSequence\<close>

record 'a VectorSequence = Sequence +
  seed :: int
  vector :: "'a list"
  shuffled :: "'a list"

text \<open>
  \<^verbatim>\<open>__init__(vector, batch_size, seed, elapsed_epochs)\<close>: the base constructor gets
  \<^verbatim>\<open>len(vector)\<close>, the batch size and the elapsed epochs, and keeps them in the
  three fields above; the shuffled view starts as a copy of the vector.
\<close>

definition init :: "'a list \<Rightarrow> int \<Rightarrow> int \<Rightarrow> int \<Rightarrow> 'a VectorSequence" where
  "init v b s e =
     \<lparr>samples_number = length v, batch_size = b, elapsed_epochs = e,
      seed = s, vector = v, shuffled = v\<rparr>"

text \<open>
  \<^verbatim>\<open>on_epoch_end\<close>: the base method runs first, the generator is seeded with
  \<^verbatim>\<open>_seed + _elapsed_epochs\<close> as the base method left it, the index range is
  shuffled, and the view is replaced by the vector indexed with the shuffled
  range. When the indexing raises, the counter stays incremented and the view is
  the old one.
\<close>

definition on_epoch_end ::
  "shuffle \<Rightarrow> 'a VectorSequence \<Rightarrow> (error + unit) \<times> 'a VectorSequence" where
  "on_epoch_end shuffle self =
     (let self1 = Sequence_on_epoch_end self;
          state = seed self1 + elapsed_epochs self1;
          indices = shuffle state (arange (samples_number self1))
      in case index_array (vector self1) indices of
           Inl e \<Rightarrow> (Inl e, self1)
         | Inr ys \<Rightarrow> (Inr (), self1\<lparr>shuffled := ys\<rparr>))"

text \<open>The message of the error \<^verbatim>\<open>__getitem__\<close> raises.\<close>

definition index_message :: "int \<Rightarrow> int \<Rightarrow> string" where
  "index_message idx steps =
     ''Given index '' @ str_int idx @ '' is greater than the number ''
       @ ''of steps per epoch of this sequence '' @ str_int steps @ ''.''"

text \<open>
  \<^verbatim>\<open>__getitem__(idx)\<close>, the spec's \<open>get_batch\<close>: one guard, on the upper bound, and
  then the slice of the view from \<open>idx * B\<close> to \<open>(idx + 1) * B\<close>. Nothing is
  assigned.
\<close>

definition getitem ::
  "'a VectorSequence \<Rightarrow> int \<Rightarrow> (error + 'a list) \<times> 'a VectorSequence" where
  "getitem self idx =
     (if idx \<ge> steps_per_epoch self
      then (Inl (ValueError (index_message idx (steps_per_epoch self))), self)
      else (Inr (slice (shuffled self) (idx * batch_size self) ((idx + 1) * batch_size self)),
            self))"

text \<open>\<open>k\<close> calls of \<^verbatim>\<open>on_epoch_end\<close> in a row, as a training loop makes them.\<close>

primrec epochs :: "shuffle \<Rightarrow> nat \<Rightarrow> 'a VectorSequence \<Rightarrow> 'a VectorSequence" where
  "epochs shuffle 0 self = self"
| "epochs shuffle (Suc k) self = snd (on_epoch_end shuffle (epochs shuffle k self))"

section \<open>Properties\<close>

subsection \<open>One epoch end\<close>

lemma index_array_perm:
  assumes "mset indices = mset [0..<length xs]"
  shows "index_array xs indices = Inr (map (nth xs) indices)"
    and "mset (map (nth xs) indices) = mset xs"
proof -
  have "set indices = {0..<length xs}"
    using assms by (metis mset_eq_setD set_upt)
  then show "index_array xs indices = Inr (map (nth xs) indices)"
    by (simp add: index_array_def list_all_iff)
  have "mset (map (nth xs) indices) = image_mset (nth xs) (mset [0..<length xs])"
    using assms by simp
  also have "\<dots> = mset (map (nth xs) [0..<length xs])"
    by simp
  finally show "mset (map (nth xs) indices) = mset xs"
    by (simp add: map_nth)
qed

lemma on_epoch_end_state:
  "\<exists>ys. snd (on_epoch_end sh self) = self\<lparr>elapsed_epochs := elapsed_epochs self + 1, shuffled := ys\<rparr>"
  by (cases self) (simp add: on_epoch_end_def Sequence_on_epoch_end_def Let_def split: sum.split)

lemma on_epoch_end_frame:
  "vector (snd (on_epoch_end sh self)) = vector self"
  "seed (snd (on_epoch_end sh self)) = seed self"
  "samples_number (snd (on_epoch_end sh self)) = samples_number self"
  "batch_size (snd (on_epoch_end sh self)) = batch_size self"
  "elapsed_epochs (snd (on_epoch_end sh self)) = elapsed_epochs self + 1"
  by (simp_all add: on_epoch_end_def Sequence_on_epoch_end_def Let_def split: sum.split)

lemma epochs_frame:
  "vector (epochs sh k self) = vector self"
  "seed (epochs sh k self) = seed self"
  "samples_number (epochs sh k self) = samples_number self"
  "batch_size (epochs sh k self) = batch_size self"
  "elapsed_epochs (epochs sh k self) = elapsed_epochs self + int k"
  by (induction k) (simp_all add: on_epoch_end_frame)

lemma on_epoch_end_rearranged:
  assumes "rearranges sh" and "samples_number self = length (vector self)"
  shows "on_epoch_end sh self =
           (Inr (), self\<lparr>elapsed_epochs := elapsed_epochs self + 1,
                          shuffled := map (nth (vector self))
                            (sh (seed self + (elapsed_epochs self + 1)) [0..<length (vector self)])\<rparr>)"
proof -
  have "mset (sh (seed self + (elapsed_epochs self + 1)) [0..<length (vector self)])
          = mset [0..<length (vector self)]"
    using assms(1) by (simp add: rearranges_def)
  from index_array_perm(1)[OF this] show ?thesis
    using assms(2) by (simp add: on_epoch_end_def Sequence_on_epoch_end_def arange_def Let_def)
qed

lemma shuffled_after_epochs:
  assumes "rearranges sh"
  shows "shuffled (epochs sh (Suc k) (init v b s e)) =
           map (nth v) (sh (s + e + int (Suc k)) [0..<length v])"
proof -
  let ?st = "epochs sh k (init v b s e)"
  have "samples_number ?st = length (vector ?st)" "vector ?st = v" "seed ?st = s"
       "elapsed_epochs ?st = e + int k"
    by (simp_all add: epochs_frame init_def)
  then show ?thesis
    using on_epoch_end_rearranged[OF assms, of ?st] by (simp add: ac_simps)
qed

lemma shuffled_perm:
  assumes "rearranges sh"
  shows "mset (shuffled (epochs sh k (init v b s e))) = mset v"
proof (cases k)
  case 0
  then show ?thesis by (simp add: init_def)
next
  case (Suc j)
  have "mset (sh (s + e + int (Suc j)) [0..<length v]) = mset [0..<length v]"
    using assms by (simp add: rearranges_def)
  from index_array_perm(2)[OF this] show ?thesis
    unfolding Suc shuffled_after_epochs[OF assms] .
qed



subsection \<open>Steps per epoch and batch offsets\<close>

text \<open>The integer formula of \<open>steps_per_epoch\<close> is the ceiling of the quotient.\<close>

lemma steps_per_epoch_ceiling:
  "steps_per_epoch self = \<lceil>real (samples_number self) / real_of_int (batch_size self)\<rceil>"
  using ceiling_divide_eq_div[where 'a = real, of "int (samples_number self)" "batch_size self"]
  by (simp add: steps_per_epoch_def)

lemma steps_per_epoch_bounds:
  assumes "0 < batch_size self"
  shows "(steps_per_epoch self - 1) * batch_size self < int (samples_number self)"
    and "int (samples_number self) \<le> steps_per_epoch self * batch_size self"
proof -
  let ?b = "batch_size self" and ?a = "- int (samples_number self)"
  have eq: "?a div ?b * ?b + ?a mod ?b = ?a"
    by (rule div_mult_mod_eq)
  have r: "0 \<le> ?a mod ?b" "?a mod ?b < ?b"
    using assms by simp_all
  have st: "steps_per_epoch self * ?b = - (?a div ?b * ?b)"
    by (simp add: steps_per_epoch_def)
  show "int (samples_number self) \<le> steps_per_epoch self * ?b"
    using eq r st by linarith
  have "(steps_per_epoch self - 1) * ?b = steps_per_epoch self * ?b - ?b"
    by (simp add: left_diff_distrib)
  then show "(steps_per_epoch self - 1) * ?b < int (samples_number self)"
    using eq r st by linarith
qed

lemma steps_per_epoch_nonneg:
  assumes "0 < batch_size self"
  shows "0 \<le> steps_per_epoch self"
proof (rule ccontr)
  assume "\<not> 0 \<le> steps_per_epoch self"
  then have "steps_per_epoch self \<le> - 1" by simp
  then have "steps_per_epoch self * batch_size self \<le> - 1 * batch_size self"
    using assms by (intro mult_right_mono) simp_all
  then show False
    using steps_per_epoch_bounds(2)[OF assms] assms by linarith
qed

lemma steps_per_epoch_mod:
  assumes "0 < batch_size self" and "\<not> batch_size self dvd int (samples_number self)"
  shows "int (samples_number self) - (steps_per_epoch self - 1) * batch_size self
           = int (samples_number self) mod batch_size self"
proof -
  let ?b = "batch_size self" and ?n = "int (samples_number self)"
  have "?n mod ?b \<noteq> 0"
    using assms(2) by (simp add: dvd_eq_mod_eq_0)
  then have "(- ?n) div ?b = - (?n div ?b) - 1"
    using assms(1) by (simp add: zdiv_zminus1_eq_if)
  then have "steps_per_epoch self - 1 = ?n div ?b"
    by (simp add: steps_per_epoch_def)
  then show ?thesis
    by (simp add: minus_div_mult_eq_mod)
qed

lemma steps_per_epoch_dvd:
  assumes "0 < batch_size self" and "batch_size self dvd int (samples_number self)"
  shows "int (samples_number self) - (steps_per_epoch self - 1) * batch_size self = batch_size self"
proof -
  let ?b = "batch_size self" and ?n = "int (samples_number self)"
  have "(- ?n) div ?b * ?b = - ?n"
    using assms(2) by simp
  then have "steps_per_epoch self * ?b = ?n"
    by (simp add: steps_per_epoch_def)
  then show ?thesis
    by (simp add: left_diff_distrib)
qed

lemma batch_offsets:
  assumes "0 < batch_size self" "0 \<le> idx" "idx < steps_per_epoch self"
  shows "idx * batch_size self < int (samples_number self)"
    and "idx < steps_per_epoch self - 1 \<Longrightarrow> (idx + 1) * batch_size self < int (samples_number self)"
    and "idx = steps_per_epoch self - 1 \<Longrightarrow> int (samples_number self) \<le> (idx + 1) * batch_size self"
proof -
  have "idx * batch_size self \<le> (steps_per_epoch self - 1) * batch_size self"
    using assms by (intro mult_right_mono) simp_all
  then show "idx * batch_size self < int (samples_number self)"
    using steps_per_epoch_bounds(1)[OF assms(1)] by linarith
next
  assume "idx < steps_per_epoch self - 1"
  then have "(idx + 1) * batch_size self \<le> (steps_per_epoch self - 1) * batch_size self"
    using assms by (intro mult_right_mono) simp_all
  then show "(idx + 1) * batch_size self < int (samples_number self)"
    using steps_per_epoch_bounds(1)[OF assms(1)] by linarith
next
  assume "idx = steps_per_epoch self - 1"
  then show "int (samples_number self) \<le> (idx + 1) * batch_size self"
    using steps_per_epoch_bounds(2)[OF assms(1)] by simp
qed

subsection \<open>Slices\<close>

lemma slice_nonneg:
  assumes "0 \<le> lo" "lo \<le> hi"
  shows "slice xs lo hi = take (nat (min hi (int (length xs))) - nat lo) (drop (nat lo) xs)"
  using assms by (auto simp: slice_def adjust_index_def Let_def min_def)

lemma take_drop_nths:
  assumes "hi \<le> length xs"
  shows "take (hi - lo) (drop lo xs) = map (nth xs) [lo..<hi]"
proof (rule nth_equalityI)
  show "length (take (hi - lo) (drop lo xs)) = length (map (nth xs) [lo..<hi])"
    using assms by simp
next
  fix i assume "i < length (take (hi - lo) (drop lo xs))"
  then show "take (hi - lo) (drop lo xs) ! i = map (nth xs) [lo..<hi] ! i"
    using assms by simp
qed

lemma slice_chunk:
  assumes "0 < b"
  shows "slice xs (int i * b) ((int i + 1) * b) = take (nat b) (drop (i * nat b) xs)"
proof -
  have lo: "0 \<le> int i * b" "int i * b \<le> (int i + 1) * b"
    using assms by (simp_all add: distrib_right)
  have nlo: "nat (int i * b) = i * nat b"
    using assms by (simp add: nat_mult_distrib)
  have nhi: "nat ((int i + 1) * b) = i * nat b + nat b"
    using assms lo(1) by (simp add: distrib_right nat_add_distrib nlo)
  show ?thesis
  proof (cases "(int i + 1) * b \<le> int (length xs)")
    case True
    then show ?thesis
      unfolding slice_nonneg[OF lo] by (simp add: min_def nlo nhi)
  next
    case False
    then have "length xs \<le> i * nat b + nat b"
      using nhi by linarith
    with False show ?thesis
      unfolding slice_nonneg[OF lo] by (simp add: min_def nlo)
  qed
qed

lemma concat_chunks:
  "length xs \<le> n * b \<Longrightarrow>
     concat (map (\<lambda>i. take b (drop (i * b) xs)) [0..<n]) = xs"
proof (induction n arbitrary: xs)
  case 0
  then show ?case by simp
next
  case (Suc n)
  have len: "length (drop b xs) \<le> n * b"
    using Suc.prems by simp
  have "concat (map (\<lambda>i. take b (drop (i * b) xs)) [0..<Suc n])
          = take b xs @ concat (map (\<lambda>i. take b (drop (Suc i * b) xs)) [0..<n])"
    by (simp only: upt_conv_Cons[OF zero_less_Suc] map_Suc_upt[symmetric] list.map concat.simps
          map_map comp_def) simp
  also have "(\<lambda>i. take b (drop (Suc i * b) xs)) = (\<lambda>i. take b (drop (i * b) (drop b xs)))"
    by (simp add: add.commute)
  also have "concat (map \<dots> [0..<n]) = drop b xs"
    using Suc.IH[OF len] .
  finally show ?case by simp
qed

subsection \<open>Reachable objects\<close>





lemma shuffled_length:
  assumes "rearranges sh"
  shows "length (shuffled (epochs sh k (init v b s e))) = length v"
  using shuffled_perm[OF assms, of k v b s e] by (metis size_mset)

lemma getitem_valid_general:
  assumes b: "0 < batch_size self" and len: "length (shuffled self) = samples_number self"
    and idx: "0 \<le> idx" "idx < steps_per_epoch self"
  defines "lo \<equiv> nat (idx * batch_size self)"
    and "hi \<equiv> nat (min ((idx + 1) * batch_size self) (int (samples_number self)))"
  shows "fst (getitem self idx) = Inr (map (nth (shuffled self)) [lo..<hi])"
    and "lo < hi" and "hi \<le> length (shuffled self)"
    and "idx < steps_per_epoch self - 1 \<Longrightarrow> int (hi - lo) = batch_size self"
    and "idx = steps_per_epoch self - 1 \<Longrightarrow> \<not> batch_size self dvd int (samples_number self)
           \<Longrightarrow> int (hi - lo) = int (samples_number self) mod batch_size self"
    and "idx = steps_per_epoch self - 1 \<Longrightarrow> batch_size self dvd int (samples_number self)
           \<Longrightarrow> int (hi - lo) = batch_size self"
proof -
  let ?b = "batch_size self" and ?n = "int (samples_number self)"
  have lo0: "0 \<le> idx * ?b"
    using b idx(1) by simp
  have lohi: "idx * ?b \<le> (idx + 1) * ?b"
    using b by (simp add: distrib_right)
  have lon: "idx * ?b < ?n"
    by (rule batch_offsets(1)[OF b idx])
  show hilen: "hi \<le> length (shuffled self)"
    by (simp add: hi_def len)
  show "lo < hi"
    using lo0 lohi lon b by (simp add: lo_def hi_def min_def distrib_right)
  have "slice (shuffled self) (idx * ?b) ((idx + 1) * ?b) = take (hi - lo) (drop lo (shuffled self))"
    unfolding slice_nonneg[OF lo0 lohi] by (simp add: lo_def hi_def len)
  also have "\<dots> = map (nth (shuffled self)) [lo..<hi]"
    by (rule take_drop_nths[OF hilen])
  finally show "fst (getitem self idx) = Inr (map (nth (shuffled self)) [lo..<hi])"
    using idx(2) by (simp add: getitem_def)
  show "int (hi - lo) = ?b" if "idx < steps_per_epoch self - 1"
  proof -
    have "(idx + 1) * ?b < ?n"
      by (rule batch_offsets(2)[OF b idx that])
    then show ?thesis
      using lo0 b by (simp add: lo_def hi_def min_def distrib_right)
  qed
  show "int (hi - lo) = ?n mod ?b"
    if last: "idx = steps_per_epoch self - 1" and nd: "\<not> ?b dvd ?n"
  proof -
    have "?n \<le> (idx + 1) * ?b"
      by (rule batch_offsets(3)[OF b idx last])
    then have "int (hi - lo) = ?n - idx * ?b"
      using lo0 lon by (simp add: lo_def hi_def min_def)
    then show ?thesis
      using steps_per_epoch_mod[OF b nd] last by simp
  qed
  show "int (hi - lo) = ?b"
    if last: "idx = steps_per_epoch self - 1" and d: "?b dvd ?n"
  proof -
    have "?n \<le> (idx + 1) * ?b"
      by (rule batch_offsets(3)[OF b idx last])
    then have "int (hi - lo) = ?n - idx * ?b"
      using lo0 lon by (simp add: lo_def hi_def min_def)
    then show ?thesis
      using steps_per_epoch_dvd[OF b d] last by simp
  qed
qed

section \<open>The claims\<close>

text \<open>
  C1. Permutation invariant. For every dataset vector and every number \<open>k\<close> of
  \<^verbatim>\<open>on_epoch_end\<close> calls (\<open>k = 0\<close> is the object as constructed), the shuffled
  view has the length and the multiset of elements of the dataset vector, which is
  itself still the vector given to the constructor. The generator is any function
  that rearranges its array.
\<close>

theorem shuffled_is_permutation:
  assumes "rearranges sh"
  shows "length (shuffled (epochs sh k (init v b s e))) = length v
       \<and> mset (shuffled (epochs sh k (init v b s e))) = mset v
       \<and> vector (epochs sh k (init v b s e)) = v"
  using shuffled_perm[OF assms, of k v b s e] shuffled_length[OF assms, of k v b s e]
  by (simp add: epochs_frame init_def)

theorem shuffled_is_permutation_witness:
  "rearranges (\<lambda>s a. if even s then rev a else a)
   \<and> shuffled (epochs (\<lambda>s a. if even s then rev a else a) 2 (init [10, 20, 30 :: nat] 2 42 0))
       = [30, 20, 10]
   \<and> mset (shuffled (epochs (\<lambda>s a. if even s then rev a else a) 2 (init [10, 20, 30 :: nat] 2 42 0)))
       = mset [10, 20, 30]"
proof -
  have r: "rearranges (\<lambda>s a. if even s then rev a else a)"
    by (simp add: rearranges_def)
  have "shuffled (epochs (\<lambda>s a. if even s then rev a else a) 2 (init [10, 20, 30 :: nat] 2 42 0))
       = [30, 20, 10]"
    by code_simp
  then show ?thesis
    using r shuffled_is_permutation[OF r, of 2 "[10, 20, 30 :: nat]" 2 42 0] by simp
qed

text \<open>
  C2. For a valid batch index, \<open>0 \<le> idx < steps_per_epoch\<close>, \<^verbatim>\<open>__getitem__\<close>
  returns the entries of the current shuffled view at the positions from
  \<open>idx * B\<close> up to, not including, \<open>min ((idx + 1) * B) N\<close>, in order. The range is
  never empty; it has \<open>B\<close> positions for every index but the last, and \<open>N mod B\<close>
  positions for the last index when \<open>B\<close> does not divide \<open>N\<close>.
\<close>

theorem getitem_valid_slice:
  assumes "rearranges sh" and "0 < b"
    and "0 \<le> idx" and "idx < steps_per_epoch (epochs sh k (init v b s e))"
  shows "let self = epochs sh k (init v b s e);
             lo = nat (idx * b);
             hi = nat (min ((idx + 1) * b) (int (length v)))
         in fst (getitem self idx) = Inr (map (nth (shuffled self)) [lo..<hi])
          \<and> lo < hi \<and> hi \<le> length (shuffled self)
          \<and> (idx < steps_per_epoch self - 1 \<longrightarrow> int (hi - lo) = b)
          \<and> (idx = steps_per_epoch self - 1 \<and> \<not> b dvd int (length v)
               \<longrightarrow> int (hi - lo) = int (length v) mod b)
          \<and> (idx = steps_per_epoch self - 1 \<and> b dvd int (length v)
               \<longrightarrow> int (hi - lo) = b)"
proof -
  let ?self = "epochs sh k (init v b s e)"
  have f: "batch_size ?self = b" "samples_number ?self = length v"
    by (simp_all add: epochs_frame init_def)
  have b: "0 < batch_size ?self"
    using assms(2) f by simp
  have len: "length (shuffled ?self) = samples_number ?self"
    using shuffled_length[OF assms(1)] f by simp
  show ?thesis
    using getitem_valid_general[OF b len assms(3,4)] unfolding Let_def f by blast
qed

theorem getitem_valid_slice_witness:
  "rearranges (\<lambda>s a. if even s then rev a else a)
   \<and> steps_per_epoch (epochs (\<lambda>s a. if even s then rev a else a) 1
         (init [10, 11, 12, 13, 14, 15, 16, 17, 18, 19 :: nat] 3 43 0)) = 4
   \<and> fst (getitem (epochs (\<lambda>s a. if even s then rev a else a) 1
         (init [10, 11, 12, 13, 14, 15, 16, 17, 18, 19 :: nat] 3 43 0)) 0) = Inr [19, 18, 17]
   \<and> fst (getitem (epochs (\<lambda>s a. if even s then rev a else a) 1
         (init [10, 11, 12, 13, 14, 15, 16, 17, 18, 19 :: nat] 3 43 0)) 3) = Inr [10]"
proof -
  let ?sh = "\<lambda>(s::int) (a::nat list). if even s then rev a else a"
  let ?self = "epochs ?sh 1 (init [10, 11, 12, 13, 14, 15, 16, 17, 18, 19 :: nat] 3 43 0)"
  have r: "rearranges ?sh"
    by (simp add: rearranges_def)
  have st: "steps_per_epoch ?self = 4"
    by code_simp
  have sh: "shuffled ?self = [19, 18, 17, 16, 15, 14, 13, 12, 11, 10]"
    by code_simp
  have b: "(0::int) < 3" and i0: "(0::int) \<le> 0" and i3: "(0::int) \<le> 3"
    by simp_all
  have v0: "0 < steps_per_epoch ?self" and v3: "3 < steps_per_epoch ?self"
    unfolding st by simp_all
  have "fst (getitem ?self 0) = Inr [19, 18, 17]"
    using getitem_valid_slice[OF r b i0 v0] sh by (simp add: Let_def upt_rec)
  moreover have "fst (getitem ?self 3) = Inr [10]"
    using getitem_valid_slice[OF r b i3 v3] sh by (simp add: Let_def upt_rec)
  ultimately show ?thesis
    using r st by simp
qed

text \<open>
  C3. \<^verbatim>\<open>__getitem__\<close> raises its error exactly when \<open>steps_per_epoch \<le> idx\<close>, so
  in particular at \<open>idx = steps_per_epoch\<close>; the message of the error holds the
  decimal forms of the index and of \<open>steps_per_epoch\<close>. Below \<open>steps_per_epoch\<close>
  it never raises: the result is the Python slice of the view from \<open>idx * B\<close> to
  \<open>(idx + 1) * B\<close>, also for a negative index, and for \<open>idx = - 1\<close> with a
  positive batch size that slice is empty.
\<close>

theorem getitem_error_iff:
  "(isl (fst (getitem self idx)) \<longleftrightarrow> steps_per_epoch self \<le> idx)
   \<and> (steps_per_epoch self \<le> idx \<longrightarrow>
        fst (getitem self idx) = Inl (ValueError
          (''Given index '' @ str_int idx
             @ '' is greater than the number of steps per epoch of this sequence ''
             @ str_int (steps_per_epoch self) @ ''.'')))
   \<and> (idx < steps_per_epoch self \<longrightarrow>
        fst (getitem self idx)
          = Inr (slice (shuffled self) (idx * batch_size self) ((idx + 1) * batch_size self)))
   \<and> isl (fst (getitem self (steps_per_epoch self)))
   \<and> (0 < batch_size self \<longrightarrow> fst (getitem self (- 1)) = Inr [])"
proof -
  have "fst (getitem self (- 1)) = Inr []" if "0 < batch_size self"
  proof -
    have "\<not> steps_per_epoch self \<le> - 1"
      using steps_per_epoch_nonneg[OF that] by simp
    then show ?thesis
      by (simp add: getitem_def slice_def adjust_index_def)
  qed
  then show ?thesis
    by (simp add: getitem_def index_message_def)
qed

theorem getitem_error_iff_witness:
  "steps_per_epoch (init [10, 11, 12, 13, 14, 15, 16, 17, 18, 19 :: nat] 3 42 0) = 4
   \<and> fst (getitem (init [10, 11, 12, 13, 14, 15, 16, 17, 18, 19 :: nat] 3 42 0) 4)
       = Inl (ValueError
           ''Given index 4 is greater than the number of steps per epoch of this sequence 4.'')
   \<and> fst (getitem (init [10, 11, 12, 13, 14, 15, 16, 17, 18, 19 :: nat] 3 42 0) 3) = Inr [19]
   \<and> fst (getitem (init [10, 11, 12, 13, 14, 15, 16, 17, 18, 19 :: nat] 3 42 0) (- 1)) = Inr []"
proof -
  let ?self = "init [10, 11, 12, 13, 14, 15, 16, 17, 18, 19 :: nat] 3 42 0"
  have st: "steps_per_epoch ?self = 4"
    by code_simp
  have m: "str_int 4 = ''4''"
    by code_simp
  have s3: "slice (shuffled ?self) (3 * batch_size ?self) ((3 + 1) * batch_size ?self) = [19]"
    by code_simp
  have b: "0 < batch_size ?self"
    by (simp add: init_def)
  show ?thesis
    using getitem_error_iff[of ?self 4] getitem_error_iff[of ?self 3]
      getitem_error_iff[of ?self "- 1"] b
    unfolding st m s3 by simp
qed

text \<open>
  C3 as the spec words it also has negative indices fail. The guard has no lower
  bound: on ten entries with \<open>B = 3\<close> there are four steps;
  index \<open>- 1\<close> is outside \<open>[0, 4)\<close> and returns an empty batch, and index \<open>- 2\<close>
  returns the entries at positions \<open>4, 5, 6\<close>.
\<close>

theorem getitem_negative_counterexample:
  "steps_per_epoch (init [10, 11, 12, 13, 14, 15, 16, 17, 18, 19 :: nat] 3 42 0) = 4
   \<and> fst (getitem (init [10, 11, 12, 13, 14, 15, 16, 17, 18, 19 :: nat] 3 42 0) (- 1)) = Inr []
   \<and> fst (getitem (init [10, 11, 12, 13, 14, 15, 16, 17, 18, 19 :: nat] 3 42 0) (- 2))
       = Inr [14, 15, 16]"
  by code_simp






text \<open>
  C6. Coverage. The batches of the indices \<open>0, \<dots>, steps_per_epoch - 1\<close> are all
  returned without error, and their concatenation in index order is the current
  shuffled view.
\<close>

theorem batches_cover_view:
  assumes "rearranges sh" and "0 < b"
  shows "\<exists>bs. map (\<lambda>i. fst (getitem (epochs sh k (init v b s e)) (int i)))
                 [0..<nat (steps_per_epoch (epochs sh k (init v b s e)))] = map Inr bs
            \<and> concat bs = shuffled (epochs sh k (init v b s e))"
proof -
  let ?self = "epochs sh k (init v b s e)"
  let ?n = "nat (steps_per_epoch ?self)"
  let ?bs = "map (\<lambda>i. take (nat b) (drop (i * nat b) (shuffled ?self))) [0..<?n]"
  have f: "batch_size ?self = b" "samples_number ?self = length v"
    by (simp_all add: epochs_frame init_def)
  have b: "0 < batch_size ?self"
    using assms(2) f by simp
  have len: "length (shuffled ?self) = length v"
    by (rule shuffled_length[OF assms(1)])
  have "fst (getitem ?self (int i)) = Inr (take (nat b) (drop (i * nat b) (shuffled ?self)))"
    if "i < ?n" for i
  proof -
    have "int i < steps_per_epoch ?self"
      using that by simp
    then show ?thesis
      using slice_chunk[OF assms(2), of "shuffled ?self" i] by (simp add: getitem_def f)
  qed
  then have "map (\<lambda>i. fst (getitem ?self (int i))) [0..<?n] = map Inr ?bs"
    by simp
  moreover have "concat ?bs = shuffled ?self"
  proof (rule concat_chunks)
    have "int (length v) \<le> steps_per_epoch ?self * b"
      using steps_per_epoch_bounds(2)[OF b] f by simp
    then have "length v \<le> nat (steps_per_epoch ?self * b)"
      by linarith
    also have "\<dots> = ?n * nat b"
      using steps_per_epoch_nonneg[OF b] by (simp add: nat_mult_distrib)
    finally show "length (shuffled ?self) \<le> ?n * nat b"
      using len by simp
  qed
  ultimately show ?thesis
    by blast
qed

theorem batches_cover_view_witness:
  "rearranges (\<lambda>s a. if even s then rev a else a)
   \<and> map (\<lambda>i. fst (getitem (epochs (\<lambda>s a. if even s then rev a else a) 1
                     (init [10, 11, 12, 13, 14, 15, 16 :: nat] 3 43 0)) (int i))) [0..<3]
       = map Inr [[16, 15, 14], [13, 12, 11], [10]]
   \<and> concat [[16, 15, 14], [13, 12, 11], [10]]
       = shuffled (epochs (\<lambda>s a. if even s then rev a else a) 1
                     (init [10, 11, 12, 13, 14, 15, 16 :: nat] 3 43 0))"
proof -
  let ?sh = "\<lambda>(s::int) (a::nat list). if even s then rev a else a"
  let ?self = "epochs ?sh 1 (init [10, 11, 12, 13, 14, 15, 16 :: nat] 3 43 0)"
  have r: "rearranges ?sh"
    by (simp add: rearranges_def)
  have b: "(0::int) < 3"
    by simp
  have st: "nat (steps_per_epoch ?self) = 3"
    by code_simp
  have m: "map (\<lambda>i. fst (getitem ?self (int i))) [0..<3]
             = map Inr [[16, 15, 14], [13, 12, 11], [10]]"
    by code_simp
  obtain bs where bs: "map (\<lambda>i. fst (getitem ?self (int i))) [0..<nat (steps_per_epoch ?self)]
                         = map Inr bs" "concat bs = shuffled ?self"
    using batches_cover_view[OF r b, of 1 "[10, 11, 12, 13, 14, 15, 16 :: nat]" 43 0] by blast
  have "bs = [[16, 15, 14], [13, 12, 11], [10]]"
    using bs(1) unfolding st m inj_map_eq_map[OF inj_Inr] by simp
  then show ?thesis
    using r m bs(2) by simp
qed

text \<open>
  C7. A constructed object holds the dataset vector, in its order, as its shuffled
  view, whatever elapsed-epoch count it was constructed with; so for \<open>N = 10\<close> and
  \<open>B = 3\<close> batch \<open>0\<close> is the entries \<open>0, 1, 2\<close> of the vector.
\<close>

theorem init_unshuffled:
  "shuffled (init v b s e) = v
   \<and> (length v = 10 \<longrightarrow> fst (getitem (init v 3 s e) 0) = Inr [v ! 0, v ! 1, v ! 2])"
proof -
  have "fst (getitem (init v 3 s e) 0) = Inr [v ! 0, v ! 1, v ! 2]" if "length v = 10"
  proof -
    have "steps_per_epoch (init v 3 s e) = 4"
      using that by (simp add: steps_per_epoch_def init_def)
    moreover have "slice v 0 3 = map (nth v) [0..<3]"
      using that slice_nonneg[of 0 3 v] take_drop_nths[of 3 v 0] by simp
    moreover have "[0..<3] = [0, 1, 2]"
      by (simp add: upt_rec)
    ultimately show ?thesis
      by (simp add: getitem_def init_def)
  qed
  then show ?thesis
    by (simp add: init_def)
qed

theorem init_unshuffled_witness:
  "shuffled (init [5, 6, 7, 8, 9, 10, 11, 12, 13, 14 :: nat] 3 42 7) = [5, 6, 7, 8, 9, 10, 11, 12, 13, 14]
   \<and> fst (getitem (init [5, 6, 7, 8, 9, 10, 11, 12, 13, 14 :: nat] 3 42 7) 0) = Inr [5, 6, 7]"
  using init_unshuffled[of "[5, 6, 7, 8, 9, 10, 11, 12, 13, 14 :: nat]" 3 42 7] by simp



text \<open>
  C9. Frame conditions. \<^verbatim>\<open>__getitem__\<close> returns the object as it received it.
  \<^verbatim>\<open>on_epoch_end\<close> changes the elapsed-epoch counter and the shuffled view and
  nothing else, so the dataset vector and the base seed are the constructor's
  after any number of calls.
\<close>

theorem getitem_frame:
  "snd (getitem self idx) = self
   \<and> (\<exists>ys. snd (on_epoch_end sh self)
          = self\<lparr>elapsed_epochs := elapsed_epochs self + 1, shuffled := ys\<rparr>)
   \<and> vector (snd (on_epoch_end sh self)) = vector self
   \<and> seed (snd (on_epoch_end sh self)) = seed self
   \<and> vector (epochs sh k self) = vector self
   \<and> seed (epochs sh k self) = seed self"
  using on_epoch_end_state[of sh self]
  by (simp add: getitem_def on_epoch_end_frame epochs_frame)



end
